theory Spec2Isabelle
  imports Complex_Main
begin

section \<open>Data model of processLoaded.py\<close>

text \<open>
  Python numbers (loads, capacities, speeds, times) are reals. The running total
  \<open>current_load\<close> is kept by the float statements \<open>current_load += task.load\<close> and
  \<open>current_load -= task.load\<close>, whose results are rounded to the nearest double
  (\<open>round_double\<close> below; on Python ints of less than 53 bits the rounding changes
  nothing); the differences, quotients and comparisons elsewhere in the program are
  taken on the exact values. A division whose divisor is zero raises
  \<open>ZeroDivisionError\<close> in Python and is an error value here.

  \<open>Task\<close> objects are mutable and shared by reference between the queue and the
  processors' task lists (membership and removal compare object identity, since the
  class defines no equality). They live in a store: a reference is a natural number and
  the heap maps references to the objects' fields. The field \<open>processor\<close> of the class
  is set to \<open>None\<close> once and never read, so it is left out.
\<close>

datatype error = ZeroDivisionError

type_synonym tref = nat

record task =
  task_id :: nat
  load :: real
  execution_time :: real
  remaining_time :: real

type_synonym heap = "tref \<Rightarrow> task"

record store =
  cells :: heap
  fresh :: tref

text \<open>\<open>Task(id, load, execution_time)\<close>: a new object, \<open>remaining_time = execution_time\<close>.\<close>

definition Task :: "nat \<Rightarrow> real \<Rightarrow> real \<Rightarrow> store \<Rightarrow> tref \<times> store" where
  "Task i l e s =
     (fresh s,
      s\<lparr>cells := (cells s)(fresh s :=
            \<lparr>task_id = i, load = l, execution_time = e, remaining_time = e\<rparr>),
        fresh := Suc (fresh s)\<rparr>)"

record processor =
  pid :: nat
  capacity :: real
  processing_speed :: real
  current_load :: real
  tasks :: "tref list"
  history :: "real list"

text \<open>\<open>Processor(id)\<close> with the default capacity 100 and speed 1.0.\<close>

definition Processor :: "nat \<Rightarrow> processor" where
  "Processor i =
     \<lparr>pid = i, capacity = 100, processing_speed = 1, current_load = 0,
      tasks = [], history = []\<rparr>"

text \<open>The slice \<open>xs[-n:]\<close> for a positive \<open>n\<close>: the last \<open>n\<close> elements, all of them if fewer.\<close>

definition last_n :: "nat \<Rightarrow> 'a list \<Rightarrow> 'a list" where
  "last_n n xs = drop (length xs - n) xs"

definition py_div :: "real \<Rightarrow> real \<Rightarrow> error + real" where
  "py_div a b = (if b = 0 then Inl ZeroDivisionError else Inr (a / b))"

subsection \<open>Rounding to double precision\<close>

text \<open>
  A Python float is an IEEE 754 double: 53 significant bits, round to nearest, ties to
  the even significand. \<open>binary_exponent n x\<close> is the \<open>e\<close> with \<open>2^e \<le> x < 2^(e+1)\<close> for a
  positive \<open>x\<close>, found in at most \<open>n\<close> halvings or doublings; \<open>ulp x\<close> is the spacing of the
  doubles around \<open>x\<close>, which is \<open>2^(e-52)\<close> and never less than \<open>2^(-1074)\<close>, the spacing of
  the subnormal numbers. Results beyond the largest double (about \<open>1.8e308\<close>), where
  Python yields \<open>inf\<close>, are not represented.
\<close>

definition pow2 :: "int \<Rightarrow> real" where
  "pow2 e = (if 0 \<le> e then 2 ^ nat e else 1 / 2 ^ nat (- e))"

fun binary_exponent :: "nat \<Rightarrow> real \<Rightarrow> int" where
  "binary_exponent 0 x = 0"
| "binary_exponent (Suc n) x =
     (if 2 \<le> x then binary_exponent n (x / 2) + 1
      else if x < 1 then binary_exponent n (2 * x) - 1
      else 0)"

definition round_half_even :: "real \<Rightarrow> int" where
  "round_half_even r =
     (let f = \<lfloor>r\<rfloor>
      in if r - of_int f < 1 / 2 then f
         else if 1 / 2 < r - of_int f then f + 1
         else if even f then f else f + 1)"

definition ulp :: "real \<Rightarrow> real" where
  "ulp x = pow2 (max (binary_exponent 1100 \<bar>x\<bar>) (- 1022) - 52)"

definition round_double :: "real \<Rightarrow> real" where
  "round_double x = (if x = 0 then 0 else of_int (round_half_even (x / ulp x)) * ulp x)"

section \<open>Processor\<close>

text \<open>
  \<open>add_task\<close> appends the task and executes \<open>self.current_load += task.load\<close>;
  \<open>remove_task\<close> removes the first occurrence of an owned task and executes
  \<open>self.current_load -= task.load\<close>, and does nothing for a task that is not in the list.
\<close>

definition add_task :: "heap \<Rightarrow> tref \<Rightarrow> processor \<Rightarrow> processor" where
  "add_task h t p =
     p\<lparr>tasks := tasks p @ [t], current_load := round_double (current_load p + load (h t))\<rparr>"

definition remove_task :: "heap \<Rightarrow> tref \<Rightarrow> processor \<Rightarrow> processor" where
  "remove_task h t p =
     (if t \<in> set (tasks p)
      then p\<lparr>tasks := remove1 t (tasks p),
             current_load := round_double (current_load p - load (h t))\<rparr>
      else p)"

definition update_history :: "processor \<Rightarrow> processor" where
  "update_history p =
     (let hs = history p @ [current_load p]
      in p\<lparr>history := (if length hs > 100 then last_n 100 hs else hs)\<rparr>)"

definition get_available_capacity :: "processor \<Rightarrow> real" where
  "get_available_capacity p = capacity p - current_load p"

text \<open>
  The first loop of \<open>process_tasks\<close>: every task of the list, in order, has its
  \<open>remaining_time\<close> decremented by the speed (in the heap, so through every alias), and is
  appended to \<open>completed_tasks\<close> when the result is at most zero.
\<close>

fun advance_tasks :: "real \<Rightarrow> tref list \<Rightarrow> heap \<Rightarrow> tref list \<Rightarrow> heap \<times> tref list" where
  "advance_tasks speed [] h completed = (h, completed)"
| "advance_tasks speed (t # ts) h completed =
     (let h' = h(t := (h t)\<lparr>remaining_time := remaining_time (h t) - speed\<rparr>)
      in advance_tasks speed ts h'
           (if remaining_time (h' t) \<le> 0 then completed @ [t] else completed))"

text \<open>The second loop: \<open>remove_task\<close> for each completed task, in order.\<close>

fun remove_completed :: "heap \<Rightarrow> tref list \<Rightarrow> processor \<Rightarrow> processor" where
  "remove_completed h [] p = p"
| "remove_completed h (t # ts) p = remove_completed h ts (remove_task h t p)"

definition process_tasks :: "processor \<Rightarrow> heap \<Rightarrow> tref list \<times> processor \<times> heap" where
  "process_tasks p h =
     (case advance_tasks (processing_speed p) (tasks p) h [] of
        (h', completed) \<Rightarrow>
          (completed, update_history (remove_completed h' completed p), h'))"

section \<open>LoadBalancer\<close>

record balancer =
  processors :: "processor list"
  task_queue :: "tref list"
  completed_tasks :: nat
  task_id_counter :: nat
  algorithm :: string
  running :: bool
  paused :: bool

text \<open>\<open>LoadBalancer(num_processors)\<close>; \<open>range\<close> of a negative number is empty.\<close>

definition LoadBalancer :: "int \<Rightarrow> balancer" where
  "LoadBalancer num_processors =
     \<lparr>processors = map Processor [0..<nat num_processors], task_queue = [],
      completed_tasks = 0, task_id_counter = 0, algorithm = ''round_robin'',
      running = False, paused = False\<rparr>"

text \<open>\<open>LoadBalancer.add_task(load, execution_time)\<close>: the queue is first in, first out.\<close>

definition lb_add_task :: "real \<Rightarrow> real \<Rightarrow> balancer \<times> store \<Rightarrow> balancer \<times> store" where
  "lb_add_task l e bs =
     (case bs of (lb, s) \<Rightarrow>
        (case Task (task_id_counter lb) l e s of
           (t, s') \<Rightarrow>
             (lb\<lparr>task_id_counter := task_id_counter lb + 1,
                 task_queue := task_queue lb @ [t]\<rparr>, s')))"

subsection \<open>The four strategies\<close>

text \<open>
  The scan of \<open>_round_robin\<close>: the first processor, in sequence order, whose available
  capacity is at least the task's load receives the task and the loop breaks;
  \<open>None\<close> is \<open>assigned = False\<close> at the end of the loop.
\<close>

fun scan_capacity :: "heap \<Rightarrow> tref \<Rightarrow> processor list \<Rightarrow> processor list option" where
  "scan_capacity h t [] = None"
| "scan_capacity h t (p # ps) =
     (if get_available_capacity p \<ge> load (h t) then Some (add_task h t p # ps)
      else map_option ((#) p) (scan_capacity h t ps))"

definition round_robin :: "heap \<Rightarrow> tref \<Rightarrow> processor list \<Rightarrow> processor list" where
  "round_robin h t ps =
     (case scan_capacity h t ps of
        Some ps' \<Rightarrow> ps'
      | None \<Rightarrow> (if ps \<noteq> [] then ps[0 := add_task h t (ps ! 0)] else ps))"

text \<open>
  \<open>sorted(self.processors, key=...)\<close> builds a new list of the same Processor objects,
  stably ordered by key, and \<open>processors[0].add_task\<close> then mutates the object that is
  also in \<open>self.processors\<close>. The model sorts the positions of the processors by their
  keys (\<open>sort_key\<close> is a stable insertion sort) and updates the processor at the first
  position of that order.
\<close>

definition sorted_positions :: "real list \<Rightarrow> nat list" where
  "sorted_positions ks = sort_key (\<lambda>i. ks ! i) [0..<length ks]"

text \<open>
  The tail shared by the three sorting strategies:
  \<open>if processors and processors[0].get_available_capacity() >= task.load:
  processors[0].add_task(task) elif processors: processors[0].add_task(task)\<close>.
\<close>

definition assign_first :: "heap \<Rightarrow> tref \<Rightarrow> nat list \<Rightarrow> processor list \<Rightarrow> processor list" where
  "assign_first h t order ps =
     (if order \<noteq> [] \<and> get_available_capacity (ps ! hd order) \<ge> load (h t)
      then ps[hd order := add_task h t (ps ! hd order)]
      else if order \<noteq> [] then ps[hd order := add_task h t (ps ! hd order)]
      else ps)"

definition least_loaded :: "heap \<Rightarrow> tref \<Rightarrow> processor list \<Rightarrow> processor list" where
  "least_loaded h t ps = assign_first h t (sorted_positions (map current_load ps)) ps"

text \<open>The key function is called on every element, in order; the first failure raises.\<close>

fun keys_of :: "('a \<Rightarrow> error + real) \<Rightarrow> 'a list \<Rightarrow> error + real list" where
  "keys_of f [] = Inr []"
| "keys_of f (x # xs) =
     (case f x of
        Inl e \<Rightarrow> Inl e
      | Inr k \<Rightarrow> (case keys_of f xs of Inl e \<Rightarrow> Inl e | Inr ks \<Rightarrow> Inr (k # ks)))"

definition weighted_key :: "processor \<Rightarrow> error + real" where
  "weighted_key p = py_div (current_load p) (processing_speed p)"

definition weighted_distribution ::
  "heap \<Rightarrow> tref \<Rightarrow> processor list \<Rightarrow> error + processor list" where
  "weighted_distribution h t ps =
     (case keys_of weighted_key ps of
        Inl e \<Rightarrow> Inl e
      | Inr ks \<Rightarrow> Inr (assign_first h t (sorted_positions ks) ps))"

definition recent_load :: "processor \<Rightarrow> real" where
  "recent_load p =
     sum_list (last_n 10 (history p)) / real (max (length (last_n 10 (history p))) 1)"

definition adaptive_score :: "processor \<Rightarrow> error + real" where
  "adaptive_score p =
     (case py_div (current_load p) (capacity p) of
        Inl e \<Rightarrow> Inl e
      | Inr a \<Rightarrow>
          (case py_div 1 (processing_speed p) of
             Inl e \<Rightarrow> Inl e
           | Inr b \<Rightarrow> Inr (a * b * (1 + recent_load p / 200))))"

definition adaptive_distribution ::
  "heap \<Rightarrow> tref \<Rightarrow> processor list \<Rightarrow> error + processor list" where
  "adaptive_distribution h t ps =
     (case keys_of adaptive_score ps of
        Inl e \<Rightarrow> Inl e
      | Inr scores \<Rightarrow> Inr (assign_first h t (sorted_positions scores) ps))"

subsection \<open>Distribution and the processing cycle\<close>

text \<open>The \<open>if\<close>/\<open>elif\<close> chain of \<open>distribute_tasks\<close>; it has no \<open>else\<close> branch.\<close>

definition dispatch :: "string \<Rightarrow> heap \<Rightarrow> tref \<Rightarrow> processor list \<Rightarrow> error + processor list" where
  "dispatch a h t ps =
     (if a = ''round_robin'' then Inr (round_robin h t ps)
      else if a = ''least_loaded'' then Inr (least_loaded h t ps)
      else if a = ''weighted'' then weighted_distribution h t ps
      else if a = ''adaptive'' then adaptive_distribution h t ps
      else Inr ps)"

text \<open>The \<open>while not self.task_queue.empty()\<close> loop: one task is taken from the front each time.\<close>

fun drain_queue :: "string \<Rightarrow> heap \<Rightarrow> tref list \<Rightarrow> processor list \<Rightarrow> error + processor list" where
  "drain_queue a h [] ps = Inr ps"
| "drain_queue a h (t # q) ps =
     (case dispatch a h t ps of
        Inl e \<Rightarrow> Inl e
      | Inr ps' \<Rightarrow> drain_queue a h q ps')"

definition distribute_tasks :: "heap \<Rightarrow> balancer \<Rightarrow> error + balancer" where
  "distribute_tasks h lb =
     (case drain_queue (algorithm lb) h (task_queue lb) (processors lb) of
        Inl e \<Rightarrow> Inl e
      | Inr ps \<Rightarrow> Inr (lb\<lparr>processors := ps, task_queue := []\<rparr>))"

text \<open>The loop of \<open>process_cycle\<close> over the processors, threading the heap and \<open>completed\<close>.\<close>

fun cycle_processors ::
  "processor list \<Rightarrow> heap \<Rightarrow> tref list \<Rightarrow> processor list \<times> heap \<times> tref list" where
  "cycle_processors [] h completed = ([], h, completed)"
| "cycle_processors (p # ps) h completed =
     (case process_tasks (if tasks p = [] then update_history p else p) h of
        (c, p', h') \<Rightarrow>
          (case cycle_processors ps h' (completed @ c) of
             (ps', h'', completed') \<Rightarrow> (p' # ps', h'', completed')))"

definition process_cycle :: "balancer \<Rightarrow> heap \<Rightarrow> tref list \<times> balancer \<times> heap" where
  "process_cycle lb h =
     (case cycle_processors (processors lb) h [] of
        (ps, h', completed) \<Rightarrow>
          (completed,
           lb\<lparr>processors := ps, completed_tasks := completed_tasks lb + length completed\<rparr>,
           h'))"

section \<open>LoadBalancerApp: the control operations\<close>

definition change_algorithm :: "string \<Rightarrow> balancer \<Rightarrow> balancer" where
  "change_algorithm name lb = lb\<lparr>algorithm := name\<rparr>"

text \<open>
  The bound \<open>n\<close> of the slices \<open>xs[n:]\<close> and \<open>xs[:n]\<close> on a list of length \<open>len\<close>: a negative
  bound counts from the end, and the result is clipped to the list.
\<close>

definition slice_bound :: "int \<Rightarrow> nat \<Rightarrow> nat" where
  "slice_bound n len = (if n < 0 then nat (max (int len + n) 0) else min (nat n) len)"

definition change_processors :: "int \<Rightarrow> balancer \<Rightarrow> balancer" where
  "change_processors num_processors lb =
     (let current_count = length (processors lb) in
      if num_processors > int current_count
      then lb\<lparr>processors :=
                processors lb @ map Processor [current_count..<nat num_processors]\<rparr>
      else if num_processors < int current_count
      then (let k = slice_bound num_processors current_count;
                removed_tasks = concat (map tasks (drop k (processors lb)))
            in lb\<lparr>processors := take k (processors lb),
                  task_queue := task_queue lb @ removed_tasks\<rparr>)
      else lb)"

section \<open>Drivers used to state the properties\<close>

text \<open>
  The body of the simulation loop up to distribution:
  \<open>for load, exec_time in new_tasks: self.add_task(load, exec_time)\<close>, then
  \<open>self.distribute_tasks()\<close>.
\<close>

fun add_new_tasks :: "(real \<times> real) list \<Rightarrow> balancer \<times> store \<Rightarrow> balancer \<times> store" where
  "add_new_tasks [] bs = bs"
| "add_new_tasks ((l, e) # new_tasks) bs = add_new_tasks new_tasks (lb_add_task l e bs)"

definition inject_and_distribute ::
  "(real \<times> real) list \<Rightarrow> balancer \<times> store \<Rightarrow> (error + balancer) \<times> store" where
  "inject_and_distribute new_tasks bs =
     (case add_new_tasks new_tasks bs of (lb, s) \<Rightarrow> (distribute_tasks (cells s) lb, s))"

text \<open>The task lists of the processors, in sequence order, when distribution returned.\<close>

definition assignment :: "(error + balancer) \<times> store \<Rightarrow> error + tref list list" where
  "assignment r = map_sum id (\<lambda>lb. map tasks (processors lb)) (fst r)"

definition empty_store :: store where
  "empty_store =
     \<lparr>cells = (\<lambda>_. \<lparr>task_id = 0, load = 0, execution_time = 0, remaining_time = 0\<rparr>),
      fresh = 0\<rparr>"

text \<open>The histories of the processors after one call of \<open>process_cycle\<close>.\<close>

definition histories_after_cycle :: "balancer \<Rightarrow> heap \<Rightarrow> real list list" where
  "histories_after_cycle lb h =
     (case process_cycle lb h of (completed, lb', h') \<Rightarrow> map history (processors lb'))"

text \<open>
  A finite sequence of calls on one Processor: its methods, and the external control
  that sets its speed (\<open>update_processor_speed\<close>).
\<close>

datatype proc_op = AddTask tref | RemoveTask tref | ProcessTasks | UpdateHistory | SetSpeed real

fun apply_op :: "proc_op \<Rightarrow> processor \<times> heap \<Rightarrow> processor \<times> heap" where
  "apply_op (AddTask t) (p, h) = (add_task h t p, h)"
| "apply_op (RemoveTask t) (p, h) = (remove_task h t p, h)"
| "apply_op ProcessTasks (p, h) = (case process_tasks p h of (c, p', h') \<Rightarrow> (p', h'))"
| "apply_op UpdateHistory (p, h) = (update_history p, h)"
| "apply_op (SetSpeed v) (p, h) = (p\<lparr>processing_speed := v\<rparr>, h)"

fun apply_ops :: "proc_op list \<Rightarrow> processor \<times> heap \<Rightarrow> processor \<times> heap" where
  "apply_ops [] ph = ph"
| "apply_ops (x # xs) ph = apply_ops xs (apply_op x ph)"

text \<open>Four processors that hold one task each (the shrink scenario).\<close>

definition four_busy :: balancer where
  "four_busy =
     (LoadBalancer 4)\<lparr>processors :=
        [(Processor 0)\<lparr>tasks := [10], current_load := 20\<rparr>,
         (Processor 1)\<lparr>tasks := [11], current_load := 20\<rparr>,
         (Processor 2)\<lparr>tasks := [12], current_load := 20\<rparr>,
         (Processor 3)\<lparr>tasks := [13], current_load := 20\<rparr>]\<rparr>"

text \<open>The sum of \<open>load\<close> over the tasks a processor currently owns, read from the heap.\<close>

definition load_sum :: "heap \<Rightarrow> processor \<Rightarrow> real" where
  "load_sum h p = (\<Sum>t\<leftarrow>tasks p. load (h t))"

text \<open>A load that is a whole number of percent between 0 and 100.\<close>

definition whole_load :: "real \<Rightarrow> bool" where
  "whole_load l = (0 \<le> l \<and> l \<le> 100 \<and> l = of_int \<lfloor>l\<rfloor>)"

text \<open>The tasks that a sequence of calls passes to \<open>add_task\<close>, in call order.\<close>

fun added :: "proc_op list \<Rightarrow> tref list" where
  "added [] = []"
| "added (AddTask t # xs) = t # added xs"
| "added (RemoveTask t # xs) = added xs"
| "added (ProcessTasks # xs) = added xs"
| "added (UpdateHistory # xs) = added xs"
| "added (SetSpeed v # xs) = added xs"

text \<open>
  The invariant carried through a sequence of calls: the running total is the sum of the
  owned loads, and every owned load is a whole number.
\<close>

definition load_inv :: "heap \<Rightarrow> processor \<Rightarrow> bool" where
  "load_inv h p =
     (current_load p = load_sum h p \<and> (\<forall>t\<in>set (tasks p). whole_load (load (h t))))"

text \<open>
  A heap with tasks 0, 1, 2 whose loads are the doubles of the literals \<open>0.1\<close>, \<open>0.2\<close>,
  \<open>0.3\<close>, and one whose loads are the doubles of \<open>5.1\<close>, \<open>7.3\<close>, \<open>9.9\<close>.
\<close>

definition three_tasks :: "real \<Rightarrow> real \<Rightarrow> real \<Rightarrow> heap" where
  "three_tasks a b c =
     cells (snd (Task 2 (round_double c) 5
              (snd (Task 1 (round_double b) 5
                 (snd (Task 0 (round_double a) 5 empty_store))))))"

definition tenths :: heap where
  "tenths = three_tasks (1 / 10) (2 / 10) (3 / 10)"

definition fractional :: heap where
  "fractional = three_tasks (51 / 10) (73 / 10) (99 / 10)"



text \<open>The least-loaded scenario: three processors with current loads 30, 10 and 50.\<close>

definition loads_30_10_50 :: "processor list" where
  "loads_30_10_50 =
     [(Processor 0)\<lparr>tasks := [10], current_load := 30\<rparr>,
      (Processor 1)\<lparr>tasks := [11], current_load := 10\<rparr>,
      (Processor 2)\<lparr>tasks := [12], current_load := 50\<rparr>]"

text \<open>A heap with task 0 of load 5 and task 1 of load 95.\<close>

definition two_tasks :: heap where
  "two_tasks = cells (snd (Task 1 95 5 (snd (Task 0 5 5 empty_store))))"

text \<open>\<open>n\<close> successive calls of \<open>process_tasks\<close>, with the list completed by each call.\<close>

fun run_ticks :: "nat \<Rightarrow> processor \<Rightarrow> heap \<Rightarrow> tref list list \<times> processor \<times> heap" where
  "run_ticks 0 p h = ([], p, h)"
| "run_ticks (Suc n) p h =
     (case process_tasks p h of
        (c, p', h') \<Rightarrow>
          (case run_ticks n p' h' of (cs, p'', h'') \<Rightarrow> (c # cs, p'', h'')))"

text \<open>A processor of speed 1.0 that owns one new task of execution time 5.\<close>

definition one_task_store :: store where
  "one_task_store = snd (Task 0 20 5 empty_store)"

definition one_task_processor :: processor where
  "one_task_processor = add_task (cells one_task_store) 0 (Processor 0)"

subsection \<open>Where the selection is defined\<close>

text \<open>
  The algorithm names for which \<open>distribute_tasks\<close> has a branch, together with the
  condition under which the branch's sort key can be computed for every processor: the
  key of \<open>weighted\<close> divides by \<open>processing_speed\<close>, the score of \<open>adaptive\<close> divides by
  \<open>capacity\<close> and by \<open>processing_speed\<close>.
\<close>

definition selection_defined :: "string \<Rightarrow> processor list \<Rightarrow> bool" where
  "selection_defined a ps =
     (a = ''round_robin'' \<or> a = ''least_loaded'' \<or>
      (a = ''weighted'' \<and> (\<forall>p\<in>set ps. processing_speed p \<noteq> 0)) \<or>
      (a = ''adaptive'' \<and> (\<forall>p\<in>set ps. processing_speed p \<noteq> 0 \<and> capacity p \<noteq> 0)))"

text \<open>
  \<open>grown ps ps'\<close>: the same number of processors, and every processor still holds the
  tasks it held.
\<close>

definition grown :: "processor list \<Rightarrow> processor list \<Rightarrow> bool" where
  "grown ps ps' =
     (length ps' = length ps \<and> (\<forall>j<length ps. set (tasks (ps ! j)) \<subseteq> set (tasks (ps' ! j))))"

section \<open>Rounding is exact on small whole numbers\<close>

lemma binary_exponent_numeral:
  "binary_exponent (numeral k) x =
     (if 2 \<le> x then binary_exponent (pred_numeral k) (x / 2) + 1
      else if x < 1 then binary_exponent (pred_numeral k) (2 * x) - 1
      else 0)"
  by (simp add: numeral_eq_Suc)

lemma round_half_even_of_int: "round_half_even (of_int k) = k"
  by (simp add: round_half_even_def)

lemma binary_exponent_bounds:
  "1 \<le> x \<Longrightarrow> x < 2 ^ n \<Longrightarrow>
   0 \<le> binary_exponent n x \<and> 2 ^ nat (binary_exponent n x) \<le> x \<and>
   x < 2 * 2 ^ nat (binary_exponent n x)"
proof (induction n arbitrary: x)
  case 0
  then show ?case by simp
next
  case (Suc n)
  show ?case
  proof (cases "2 \<le> x")
    case True
    define e where "e = binary_exponent n (x / 2)"
    from True Suc.prems have "1 \<le> x / 2" "x / 2 < 2 ^ n" by simp_all
    from Suc.IH [OF this] have e: "0 \<le> e" "2 ^ nat e \<le> x / 2" "x / 2 < 2 * 2 ^ nat e"
      by (simp_all add: e_def)
    from e(1) have n: "nat (e + 1) = Suc (nat e)" by simp
    from True have "binary_exponent (Suc n) x = e + 1" by (simp add: e_def)
    with e n show ?thesis by simp
  next
    case False
    with Suc.prems(1) have "binary_exponent (Suc n) x = 0" by simp
    with False Suc.prems(1) show ?thesis by simp
  qed
qed

lemma round_double_nat:
  assumes "n < 2 ^ 53"
  shows "round_double (real n) = real n"
proof (cases "n = 0")
  case True
  then show ?thesis by (simp add: round_double_def)
next
  case False
  define x where "x = real n"
  define e where "e = binary_exponent 1100 \<bar>x\<bar>"
  from False have x1: "1 \<le> x" by (simp add: x_def)
  have x53: "x < 2 ^ 53"
  proof -
    from assms have "real n < real (2 ^ 53)" by (rule iffD2 [OF of_nat_less_iff])
    then show ?thesis by (simp add: x_def)
  qed
  have "(2::real) ^ 53 \<le> 2 ^ 1100" by (rule power_increasing) simp_all
  with x53 have "x < 2 ^ 1100" by simp
  from binary_exponent_bounds [OF x1 this] x1
  have e: "0 \<le> e" "2 ^ nat e \<le> x" by (simp_all add: e_def)
  from e(2) x53 have lt: "(2::real) ^ nat e < 2 ^ 53" by simp
  have "(1::real) < 2" by simp
  from this lt have "nat e < 53" by (rule power_less_imp_less_exp)
  with e(1) have e52: "e \<le> 52" by simp
  define k where "k = nat (52 - e)"
  from e(1) have m: "max e (- 1022) = e" by simp
  have ue: "ulp x = pow2 (e - 52)" by (simp add: ulp_def e_def [symmetric] m)
  have u: "ulp x = 1 / 2 ^ k"
  proof (cases "e = 52")
    case True
    then show ?thesis by (simp add: ue pow2_def k_def)
  next
    case False
    with e52 have "\<not> 0 \<le> e - 52" "nat (- (e - 52)) = k" by (simp_all add: k_def)
    then show ?thesis by (simp add: ue pow2_def)
  qed
  have "x / ulp x = x * 2 ^ k" by (simp add: u)
  also have "\<dots> = of_int (int n * 2 ^ k)" by (simp add: x_def)
  finally have "round_half_even (x / ulp x) = int n * 2 ^ k"
    by (simp only: round_half_even_of_int)
  moreover from x1 have "x \<noteq> 0" by simp
  ultimately have "round_double x = of_int (int n * 2 ^ k) * (1 / 2 ^ k)"
    by (simp only: round_double_def u if_False)
  also have "\<dots> = x" by (simp add: x_def)
  finally show ?thesis by (simp only: x_def)
qed

lemma round_double_numeral:
  "numeral k < (2::nat) ^ 53 \<Longrightarrow> round_double (numeral k) = numeral k"
  using round_double_nat [of "numeral k"] by simp

lemma round_double_0: "round_double 0 = 0"
  by (simp add: round_double_def)

section \<open>Round-robin scenario\<close>

lemma upt_0_3: "[0..<3] = [0, 1, 2]"
  by (simp add: upt_rec)

lemma upt_0_4: "[0..<4] = [0, 1, 2, 3]"
  by (simp add: upt_rec)

text \<open>
  C1, as amended. Three processors of capacity 100 with no tasks, three injected tasks of
  load 40 each: \<open>_round_robin\<close> scans from index 0 every time, so the first task goes to
  index 0, the second also to index 0 (which still has 60 available), and the third to
  index 1 (index 0 has 20 left); index 2 receives nothing.
\<close>

theorem round_robin_scenario:
  "assignment (inject_and_distribute [(40, e1), (40, e2), (40, e3)] (LoadBalancer 3, s))
     = Inr [[fresh s, Suc (fresh s)], [Suc (Suc (fresh s))], []]"
  by (simp add: assignment_def inject_and_distribute_def lb_add_task_def Task_def
      LoadBalancer_def Processor_def upt_0_3 distribute_tasks_def dispatch_def
      round_robin_def get_available_capacity_def add_task_def round_double_numeral)

text \<open>
  C1 as stated fails: with the tasks at references 0, 1, 2, in the order of injection, it
  is not the case that processor 0 holds exactly the first, processor 1 the second and
  processor 2 the third.
\<close>

theorem round_robin_scenario_counterexample:
  "assignment (inject_and_distribute [(40, 5), (40, 5), (40, 5)] (LoadBalancer 3, empty_store))
     \<noteq> Inr [[0], [1], [2]]"
  by (simp add: assignment_def inject_and_distribute_def lb_add_task_def Task_def
      LoadBalancer_def Processor_def upt_0_3 distribute_tasks_def dispatch_def
      round_robin_def get_available_capacity_def add_task_def empty_store_def
      round_double_numeral)

section \<open>History samples per cycle\<close>

text \<open>
  C2 at a failing input: the four idle processors of a new \<open>LoadBalancer(4)\<close> each gain
  two history samples in one \<open>process_cycle\<close> (one from the \<open>if not processor.tasks\<close>
  branch, one from \<open>process_tasks\<close>), not one.
\<close>

theorem idle_cycle_appends_two_samples:
  "histories_after_cycle (LoadBalancer 4) h = [[0, 0], [0, 0], [0, 0], [0, 0]]"
  by (simp add: histories_after_cycle_def process_cycle_def LoadBalancer_def Processor_def
      upt_0_4 update_history_def process_tasks_def)

section \<open>Unknown algorithm names\<close>

lemma drain_queue_unknown:
  "a \<noteq> ''round_robin'' \<Longrightarrow> a \<noteq> ''least_loaded'' \<Longrightarrow> a \<noteq> ''weighted'' \<Longrightarrow>
   a \<noteq> ''adaptive'' \<Longrightarrow> drain_queue a h q ps = Inr ps"
  by (induction q) (simp_all add: dispatch_def)

text \<open>
  C3, as amended. \<open>change_algorithm\<close> stores whatever name it is given and raises
  nothing. With a name outside the four strategies, \<open>distribute_tasks\<close> returns normally
  with the queue emptied and the processors untouched: every dequeued task is discarded.
\<close>

theorem unknown_algorithm_accepted:
  "algorithm (change_algorithm name lb) = name \<and>
   (name \<notin> {''round_robin'', ''least_loaded'', ''weighted'', ''adaptive''} \<longrightarrow>
      distribute_tasks h (change_algorithm name lb)
        = Inr (lb\<lparr>algorithm := name, task_queue := []\<rparr>))"
  by (simp add: change_algorithm_def distribute_tasks_def drain_queue_unknown)

theorem unknown_algorithm_accepted_witness:
  "algorithm (change_algorithm ''random'' (LoadBalancer 2)) = ''random'' \<and>
   distribute_tasks (cells empty_store)
     (change_algorithm ''random'' ((LoadBalancer 2)\<lparr>task_queue := [7]\<rparr>))
     = Inr ((LoadBalancer 2)\<lparr>algorithm := ''random'', task_queue := []\<rparr>)"
  using unknown_algorithm_accepted
    [of "''random''" "(LoadBalancer 2)\<lparr>task_queue := [7]\<rparr>" "cells empty_store"]
  by (simp add: change_algorithm_def)

text \<open>
  C3 as stated fails: the name \<open>random\<close> is stored without any error, and distribution
  then takes task 0 from the queue and gives it to no processor.
\<close>

theorem unknown_algorithm_counterexample:
  "algorithm (change_algorithm ''random'' (LoadBalancer 1)) = ''random'' \<and>
   assignment
     (distribute_tasks (cells empty_store)
        (change_algorithm ''random'' ((LoadBalancer 1)\<lparr>task_queue := [0]\<rparr>)), empty_store)
     = Inr [[]] \<and>
   map_sum id task_queue
     (distribute_tasks (cells empty_store)
        (change_algorithm ''random'' ((LoadBalancer 1)\<lparr>task_queue := [0]\<rparr>)))
     = Inr []"
  by (simp add: change_algorithm_def distribute_tasks_def dispatch_def LoadBalancer_def
      assignment_def Processor_def)

section \<open>Resizing the processor set\<close>

text \<open>
  C7. Shrinking to \<open>n\<close> keeps the first \<open>n\<close> processors and appends every task of the
  removed trailing processors to the queue, in order. Growing appends new processors
  whose ids continue at the old length, and leaves the queue alone. Four processors with
  one task each, shrunk to two: two processors remain and the queue grows by two tasks.
\<close>

theorem change_processors_resize:
  "(0 \<le> n \<and> n < int (length (processors lb)) \<longrightarrow>
      processors (change_processors n lb) = take (nat n) (processors lb) \<and>
      task_queue (change_processors n lb)
        = task_queue lb @ concat (map tasks (drop (nat n) (processors lb)))) \<and>
   (int (length (processors lb)) < n \<longrightarrow>
      processors (change_processors n lb)
        = processors lb @ map Processor [length (processors lb)..<nat n] \<and>
      map pid (processors (change_processors n lb))
        = map pid (processors lb) @ [length (processors lb)..<nat n] \<and>
      task_queue (change_processors n lb) = task_queue lb) \<and>
   (length (processors lb) = 4 \<and> (\<forall>p\<in>set (processors lb). length (tasks p) = 1) \<longrightarrow>
      length (processors (change_processors 2 lb)) = 2 \<and>
      length (task_queue (change_processors 2 lb)) = length (task_queue lb) + 2)"
proof (intro conjI impI)
  assume a: "0 \<le> n \<and> n < int (length (processors lb))"
  then have k: "slice_bound n (length (processors lb)) = nat n"
    by (auto simp: slice_bound_def)
  from a show "processors (change_processors n lb) = take (nat n) (processors lb)"
    by (simp add: change_processors_def Let_def k)
  from a show "task_queue (change_processors n lb)
        = task_queue lb @ concat (map tasks (drop (nat n) (processors lb)))"
    by (simp add: change_processors_def Let_def k)
next
  assume a: "int (length (processors lb)) < n"
  then show g: "processors (change_processors n lb)
        = processors lb @ map Processor [length (processors lb)..<nat n]"
    by (simp add: change_processors_def Let_def)
  have "map pid (map Processor xs) = xs" for xs
    by (induction xs) (simp_all add: Processor_def)
  with g show "map pid (processors (change_processors n lb))
        = map pid (processors lb) @ [length (processors lb)..<nat n]"
    by simp
  from a show "task_queue (change_processors n lb) = task_queue lb"
    by (simp add: change_processors_def Let_def)
next
  assume a: "length (processors lb) = 4 \<and> (\<forall>p\<in>set (processors lb). length (tasks p) = 1)"
  then show "length (processors (change_processors 2 lb)) = 2"
    by (simp add: change_processors_def Let_def slice_bound_def)
  from a obtain p0 p1 p2 p3 where ps: "processors lb = [p0, p1, p2, p3]"
    by (auto simp: length_Suc_conv eval_nat_numeral)
  with a have "length (tasks p2) = 1" "length (tasks p3) = 1" by simp_all
  with ps show "length (task_queue (change_processors 2 lb)) = length (task_queue lb) + 2"
    by (simp add: change_processors_def Let_def slice_bound_def)
qed

theorem change_processors_resize_witness:
  "task_queue (change_processors 2 four_busy) = [12, 13] \<and>
   map pid (processors (change_processors 2 four_busy)) = [0, 1] \<and>
   map pid (processors (change_processors 6 four_busy)) = [0, 1, 2, 3, 4, 5] \<and>
   length (task_queue (change_processors 2 four_busy)) = 2"
  using change_processors_resize [of 2 four_busy] change_processors_resize [of 6 four_busy]
  by (simp add: four_busy_def LoadBalancer_def Processor_def upt_rec)

section \<open>Division by the processing speed\<close>

lemma keys_of_error:
  "(keys_of f xs = Inl ZeroDivisionError) = (\<exists>x\<in>set xs. f x = Inl ZeroDivisionError)"
proof (induction xs)
  case Nil
  show ?case by simp
next
  case (Cons x xs)
  show ?case
  proof (cases "f x")
    case (Inl e)
    then show ?thesis by (cases e) simp
  next
    case (Inr k)
    show ?thesis
    proof (cases "keys_of f xs")
      case (Inl e)
      with Inr Cons show ?thesis by (cases e) auto
    next
      case (Inr ks)
      with \<open>f x = Inr k\<close> Cons show ?thesis by auto
    qed
  qed
qed

lemma weighted_key_error: "(weighted_key p = Inl ZeroDivisionError) = (processing_speed p = 0)"
  by (simp add: weighted_key_def py_div_def)

lemma adaptive_score_error:
  "(adaptive_score p = Inl ZeroDivisionError) = (capacity p = 0 \<or> processing_speed p = 0)"
  by (simp add: adaptive_score_def py_div_def)

lemma weighted_fails_iff:
  "(weighted_distribution h t ps = Inl ZeroDivisionError)
     = (\<exists>p\<in>set ps. processing_speed p = 0)"
proof (cases "keys_of weighted_key ps")
  case (Inl e)
  then have "keys_of weighted_key ps = Inl ZeroDivisionError" by (cases e) simp
  then show ?thesis
    using keys_of_error [of weighted_key ps]
    by (simp add: weighted_distribution_def weighted_key_error)
next
  case (Inr ks)
  then show ?thesis
    using keys_of_error [of weighted_key ps]
    by (simp add: weighted_distribution_def weighted_key_error)
qed

lemma adaptive_fails_iff:
  "(adaptive_distribution h t ps = Inl ZeroDivisionError)
     = (\<exists>p\<in>set ps. capacity p = 0 \<or> processing_speed p = 0)"
proof (cases "keys_of adaptive_score ps")
  case (Inl e)
  then have "keys_of adaptive_score ps = Inl ZeroDivisionError" by (cases e) simp
  then show ?thesis
    using keys_of_error [of adaptive_score ps]
    by (simp add: adaptive_distribution_def adaptive_score_error)
next
  case (Inr ks)
  then show ?thesis
    using keys_of_error [of adaptive_score ps]
    by (simp add: adaptive_distribution_def adaptive_score_error)
qed

text \<open>
  C10. The weighted strategy raises \<open>ZeroDivisionError\<close> exactly when some processor of
  the sequence has speed 0, whatever the task and the loads; the adaptive strategy raises
  it exactly when some processor has speed 0 or capacity 0. So a single processor at
  speed 0 makes both selections fail, and with every speed (and capacity) non-zero both
  return.
\<close>

theorem zero_speed_selection_fails:
  "(weighted_distribution h t ps = Inl ZeroDivisionError)
     = (\<exists>p\<in>set ps. processing_speed p = 0) \<and>
   (adaptive_distribution h t ps = Inl ZeroDivisionError)
     = (\<exists>p\<in>set ps. capacity p = 0 \<or> processing_speed p = 0)"
  by (simp add: weighted_fails_iff adaptive_fails_iff)

theorem zero_speed_selection_fails_witness:
  "weighted_distribution (cells empty_store) 0
     [Processor 0, (Processor 1)\<lparr>processing_speed := 0\<rparr>] = Inl ZeroDivisionError \<and>
   adaptive_distribution (cells empty_store) 0
     [Processor 0, (Processor 1)\<lparr>processing_speed := 0\<rparr>] = Inl ZeroDivisionError \<and>
   weighted_distribution (cells empty_store) 0 [Processor 0, Processor 1]
     \<noteq> Inl ZeroDivisionError \<and>
   adaptive_distribution (cells empty_store) 0 [Processor 0, Processor 1]
     \<noteq> Inl ZeroDivisionError"
  using zero_speed_selection_fails
      [of "cells empty_store" 0 "[Processor 0, (Processor 1)\<lparr>processing_speed := 0\<rparr>]"]
    zero_speed_selection_fails [of "cells empty_store" 0 "[Processor 0, Processor 1]"]
  by (simp add: Processor_def)

section \<open>The load invariant\<close>

lemma whole_load_nat: "whole_load l \<Longrightarrow> \<exists>k\<le>100. l = real k"
proof -
  assume w: "whole_load l"
  then have f: "0 \<le> \<lfloor>l\<rfloor>" "l = of_int \<lfloor>l\<rfloor>" "l \<le> 100" by (simp_all add: whole_load_def)
  from f(1,2) have "l = real (nat \<lfloor>l\<rfloor>)" by simp
  moreover from f(3) have "nat \<lfloor>l\<rfloor> \<le> 100" by linarith
  ultimately show ?thesis by blast
qed

lemma whole_sum:
  "\<forall>t\<in>set ts. whole_load (load (h t)) \<Longrightarrow>
   \<exists>m\<le>100 * length ts. (\<Sum>t\<leftarrow>ts. load (h t)) = real m"
proof (induction ts)
  case Nil
  then show ?case by simp
next
  case (Cons t ts)
  then obtain m where m: "m \<le> 100 * length ts" "(\<Sum>t\<leftarrow>ts. load (h t)) = real m" by auto
  from Cons.prems have "whole_load (load (h t))" by simp
  from whole_load_nat [OF this] obtain k where k: "k \<le> 100" "load (h t) = real k" by blast
  from m k have "k + m \<le> 100 * length (t # ts)" "(\<Sum>t\<leftarrow>t # ts. load (h t)) = real (k + m)"
    by simp_all
  then show ?case by blast
qed

lemma round_double_whole_sum:
  assumes "\<forall>t\<in>set ts. whole_load (load (h t))" and "length ts \<le> 2 ^ 46"
  shows "round_double (\<Sum>t\<leftarrow>ts. load (h t)) = (\<Sum>t\<leftarrow>ts. load (h t))"
proof -
  from whole_sum [OF assms(1)] obtain m where
    m: "m \<le> 100 * length ts" "(\<Sum>t\<leftarrow>ts. load (h t)) = real m" by blast
  from assms(2) have "100 * length ts \<le> 100 * 2 ^ 46" by simp
  with m(1) have "m < 2 ^ 53" by simp
  then have "round_double (real m) = real m" by (rule round_double_nat)
  with m(2) show ?thesis by simp
qed

lemma add_task_load_inv:
  assumes "load_inv h p" and "whole_load (load (h t))" and "length (tasks p) < 2 ^ 46"
  shows "load_inv h (add_task h t p)"
proof -
  have w: "\<forall>x\<in>set (tasks p @ [t]). whole_load (load (h x))"
    using assms(1,2) by (simp add: load_inv_def)
  moreover from assms(3) have "length (tasks p @ [t]) \<le> 2 ^ 46" by simp
  ultimately have "round_double (\<Sum>x\<leftarrow>tasks p @ [t]. load (h x)) = (\<Sum>x\<leftarrow>tasks p @ [t]. load (h x))"
    by (rule round_double_whole_sum)
  then have "round_double (load_sum h p + load (h t)) = load_sum h p + load (h t)"
    by (simp add: load_sum_def)
  with assms(1) have "current_load (add_task h t p) = load_sum h (add_task h t p)"
    by (simp add: add_task_def load_sum_def load_inv_def)
  moreover from w have "\<forall>x\<in>set (tasks (add_task h t p)). whole_load (load (h x))"
    by (simp add: add_task_def)
  ultimately show ?thesis by (simp add: load_inv_def)
qed

lemma remove_task_load_inv:
  assumes "load_inv h p" and "length (tasks p) \<le> 2 ^ 46"
  shows "load_inv h (remove_task h t p)"
proof (cases "t \<in> set (tasks p)")
  case False
  with assms(1) show ?thesis by (simp add: remove_task_def)
next
  case True
  have s: "(\<Sum>x\<leftarrow>tasks p. load (h x)) = load (h t) + (\<Sum>x\<leftarrow>remove1 t (tasks p). load (h x))"
    using True by (rule sum_list_map_remove1)
  have w: "\<forall>x\<in>set (remove1 t (tasks p)). whole_load (load (h x))"
    using assms(1) set_remove1_subset [of t "tasks p"] by (auto simp: load_inv_def)
  moreover have "length (remove1 t (tasks p)) \<le> 2 ^ 46"
    using assms(2) True by (simp add: length_remove1)
  ultimately have r: "round_double (\<Sum>x\<leftarrow>remove1 t (tasks p). load (h x))
      = (\<Sum>x\<leftarrow>remove1 t (tasks p). load (h x))"
    by (rule round_double_whole_sum)
  from assms(1) s have "current_load p - load (h t) = (\<Sum>x\<leftarrow>remove1 t (tasks p). load (h x))"
    by (simp add: load_inv_def load_sum_def)
  with r True have "current_load (remove_task h t p) = load_sum h (remove_task h t p)"
    by (simp add: remove_task_def load_sum_def)
  moreover from w True have "\<forall>x\<in>set (tasks (remove_task h t p)). whole_load (load (h x))"
    by (simp add: remove_task_def)
  ultimately show ?thesis by (simp add: load_inv_def)
qed

lemma remove_task_length: "length (tasks (remove_task h t p)) \<le> length (tasks p)"
  by (simp add: remove_task_def length_remove1)

lemma remove_completed_load_inv:
  "load_inv h p \<Longrightarrow> length (tasks p) \<le> 2 ^ 46 \<Longrightarrow>
   load_inv h (remove_completed h cs p) \<and>
   length (tasks (remove_completed h cs p)) \<le> length (tasks p)"
proof (induction cs arbitrary: p)
  case Nil
  then show ?case by simp
next
  case (Cons t cs)
  have i: "load_inv h (remove_task h t p)"
    using Cons.prems by (rule remove_task_load_inv)
  have l: "length (tasks (remove_task h t p)) \<le> length (tasks p)"
    by (rule remove_task_length)
  with Cons.prems(2) have "length (tasks (remove_task h t p)) \<le> 2 ^ 46" by simp
  from Cons.IH [OF i this] l show ?case by simp
qed

lemma advance_tasks_load:
  "load (fst (advance_tasks s ts h c) t) = load (h t)"
  by (induction ts arbitrary: h c) (simp_all add: Let_def)

lemma load_inv_cong:
  "(\<And>t. load (h' t) = load (h t)) \<Longrightarrow> load_inv h' p = load_inv h p"
  by (simp add: load_inv_def load_sum_def)

lemma update_history_load_inv:
  "load_inv h (update_history p) = load_inv h p"
  "tasks (update_history p) = tasks p"
  by (simp_all add: update_history_def Let_def load_inv_def load_sum_def)

lemma process_tasks_load_inv:
  assumes "load_inv h p" and "length (tasks p) \<le> 2 ^ 46"
    and "process_tasks p h = (c, p', h')"
  shows "load_inv h' p' \<and> length (tasks p') \<le> length (tasks p) \<and>
         (\<forall>t. load (h' t) = load (h t))"
proof -
  obtain h1 c1 where a: "advance_tasks (processing_speed p) (tasks p) h [] = (h1, c1)"
    by (cases "advance_tasks (processing_speed p) (tasks p) h []")
  with assms(3) have eq: "p' = update_history (remove_completed h1 c1 p)" "h' = h1"
    by (auto simp: process_tasks_def)
  have l: "\<And>t. load (h1 t) = load (h t)"
    using advance_tasks_load [of "processing_speed p" "tasks p" h "[]"] a by simp
  then have "load_inv h1 p = load_inv h p" by (rule load_inv_cong)
  with assms(1) have "load_inv h1 p" by simp
  from remove_completed_load_inv [OF this assms(2), of c1] eq l show ?thesis
    by (simp add: update_history_load_inv)
qed

lemma apply_op_load_inv:
  assumes "load_inv h p" and "length (tasks p) < 2 ^ 46"
    and "\<forall>t\<in>set (added [x]). whole_load (load (h t))"
    and "apply_op x (p, h) = (p', h')"
  shows "load_inv h' p' \<and> length (tasks p') \<le> Suc (length (tasks p)) \<and>
         (\<forall>t. load (h' t) = load (h t))"
proof (cases x)
  case (AddTask t)
  with assms(4) have e: "p' = add_task h t p" "h' = h" by auto
  from AddTask assms(3) have "whole_load (load (h t))" by simp
  with assms(1) have "load_inv h (add_task h t p)" using assms(2) by (rule add_task_load_inv)
  with e show ?thesis by (simp add: add_task_def)
next
  case (RemoveTask t)
  with assms(4) have e: "p' = remove_task h t p" "h' = h" by auto
  from assms(2) have "length (tasks p) \<le> 2 ^ 46" by simp
  with assms(1) have "load_inv h (remove_task h t p)" by (rule remove_task_load_inv)
  with e remove_task_length [of h t p] show ?thesis by simp
next
  case ProcessTasks
  obtain c p1 h1 where r: "process_tasks p h = (c, p1, h1)"
    by (cases "process_tasks p h")
  with ProcessTasks assms(4) have e: "p' = p1" "h' = h1" by auto
  from assms(2) have "length (tasks p) \<le> 2 ^ 46" by simp
  from process_tasks_load_inv [OF assms(1) this r] e show ?thesis by simp
next
  case UpdateHistory
  with assms(4) have "p' = update_history p" "h' = h" by auto
  with assms(1) show ?thesis by (simp add: update_history_load_inv)
next
  case (SetSpeed v)
  with assms(4) have "p' = p\<lparr>processing_speed := v\<rparr>" "h' = h" by auto
  with assms(1) show ?thesis by (simp add: load_inv_def load_sum_def)
qed

lemma added_Cons: "set (added (x # xs)) = set (added [x]) \<union> set (added xs)"
  by (cases x) simp_all

lemma apply_ops_load_inv:
  "load_inv h p \<Longrightarrow> length (tasks p) + length xs \<le> 2 ^ 46 \<Longrightarrow>
   \<forall>t\<in>set (added xs). whole_load (load (h t)) \<Longrightarrow>
   apply_ops xs (p, h) = (p', h') \<Longrightarrow> load_inv h' p'"
proof (induction xs arbitrary: p h)
  case Nil
  then show ?case by simp
next
  case (Cons x xs)
  obtain p1 h1 where s: "apply_op x (p, h) = (p1, h1)" by (cases "apply_op x (p, h)")
  from Cons.prems(2) have lt: "length (tasks p) < 2 ^ 46" by simp
  from Cons.prems(3) have w: "\<forall>t\<in>set (added [x]). whole_load (load (h t))"
    "\<forall>t\<in>set (added xs). whole_load (load (h t))"
    by (simp_all add: added_Cons [of x xs])
  from apply_op_load_inv [OF Cons.prems(1) lt w(1) s]
  have i: "load_inv h1 p1" and l: "length (tasks p1) \<le> Suc (length (tasks p))"
    and e: "\<forall>t. load (h1 t) = load (h t)" by simp_all
  from l Cons.prems(2) have b: "length (tasks p1) + length xs \<le> 2 ^ 46" by simp
  from w(2) e have w1: "\<forall>t\<in>set (added xs). whole_load (load (h1 t))" by simp
  from Cons.prems(4) s have "apply_ops xs (p1, h1) = (p', h')" by simp
  with i b w1 show ?case by (rule Cons.IH)
qed

text \<open>
  C4, amended. \<open>current_load\<close> is accumulated in floating point, so it is the exact sum
  of the loads only while no addition or subtraction rounds. That is the case when every
  load passed to \<open>add_task\<close> is a whole number between 0 and 100: then, after every
  sequence of at most \<open>2^46\<close> calls of \<open>add_task\<close>, \<open>remove_task\<close> (also of tasks the
  processor does not own, or owns twice), \<open>process_tasks\<close>, \<open>update_history\<close> and speed
  changes on a new Processor, \<open>current_load\<close> equals the sum of the loads of the tasks in
  its list. The statement holds for every such sequence, hence after every prefix of one.
\<close>

theorem current_load_is_sum_of_loads:
  assumes "\<forall>t\<in>set (added xs). whole_load (load (h t))" and "length xs \<le> 2 ^ 46"
  shows "current_load (fst (apply_ops xs (Processor i, h)))
     = load_sum (snd (apply_ops xs (Processor i, h))) (fst (apply_ops xs (Processor i, h)))"
proof -
  have a: "load_inv h (Processor i)"
    by (simp add: Processor_def load_sum_def load_inv_def)
  have b: "length (tasks (Processor i)) + length xs \<le> 2 ^ 46"
    using assms(2) by (simp add: Processor_def)
  obtain p' h' where r: "apply_ops xs (Processor i, h) = (p', h')"
    by (cases "apply_ops xs (Processor i, h)")
  from a b assms(1) r have "load_inv h' p'" by (rule apply_ops_load_inv)
  with r show ?thesis by (simp add: load_inv_def)
qed

text \<open>
  The theorem at a sequence that adds task 0 (load 5) twice and task 1 (load 95) once,
  removes task 0 once, removes a task that is not owned, and processes one tick.
\<close>

theorem current_load_is_sum_of_loads_witness:
  "whole_load (load (two_tasks 0)) \<and> whole_load (load (two_tasks 1)) \<and>
   length [AddTask 0, AddTask 1, AddTask 0, RemoveTask 0, RemoveTask 7, ProcessTasks]
     \<le> (2::nat) ^ 46 \<and>
   current_load (fst (apply_ops
       [AddTask 0, AddTask 1, AddTask 0, RemoveTask 0, RemoveTask 7, ProcessTasks]
       (Processor 0, two_tasks)))
     = load_sum
         (snd (apply_ops
           [AddTask 0, AddTask 1, AddTask 0, RemoveTask 0, RemoveTask 7, ProcessTasks]
           (Processor 0, two_tasks)))
         (fst (apply_ops
           [AddTask 0, AddTask 1, AddTask 0, RemoveTask 0, RemoveTask 7, ProcessTasks]
           (Processor 0, two_tasks)))"
  using current_load_is_sum_of_loads
    [of "[AddTask 0, AddTask 1, AddTask 0, RemoveTask 0, RemoveTask 7, ProcessTasks]"
        two_tasks 0]
  by (simp add: whole_load_def two_tasks_def Task_def empty_store_def)

lemmas round_double_eval =
  round_double_def ulp_def pow2_def round_half_even_def binary_exponent_numeral Let_def

lemma tenths_loads:
  "load (tenths 0) = 3602879701896397 / 2 ^ 55"
  "load (tenths (Suc 0)) = 3602879701896397 / 2 ^ 54"
  "load (tenths 2) = 5404319552844595 / 2 ^ 54"
  by (simp_all add: tenths_def three_tasks_def Task_def empty_store_def round_double_eval)

lemma fractional_loads:
  "load (fractional 0) = 2871044762448691 / 2 ^ 49"
  "load (fractional (Suc 0)) = 8219069319951155 / 2 ^ 50"
  "load (fractional 2) = 5573204538870989 / 2 ^ 49"
  by (simp_all add: fractional_def three_tasks_def Task_def empty_store_def round_double_eval)

lemma add_task_fields:
  "current_load (add_task h t p) = round_double (current_load p + load (h t))"
  "tasks (add_task h t p) = tasks p @ [t]"
  by (simp_all add: add_task_def)

lemma remove_task_fields:
  "t \<in> set (tasks p) \<Longrightarrow>
   current_load (remove_task h t p) = round_double (current_load p - load (h t))"
  "t \<in> set (tasks p) \<Longrightarrow> tasks (remove_task h t p) = remove1 t (tasks p)"
  by (simp_all add: remove_task_def)

text \<open>
  C4 as stated fails for loads that are not whole numbers. After adding tasks of loads
  \<open>0.1\<close>, \<open>0.2\<close>, \<open>0.3\<close> and removing the first, the processor owns the tasks of loads \<open>0.2\<close>
  and \<open>0.3\<close>, whose sum is \<open>0.5\<close>, and \<open>current_load\<close> is \<open>0.5 + 2^(-53)\<close>
  (Python prints \<open>0.5000000000000001\<close>). After adding tasks of loads \<open>5.1\<close>, \<open>7.3\<close>, \<open>9.9\<close>
  and removing all three, the processor owns nothing and \<open>current_load\<close> is
  \<open>-3 * 2^(-49)\<close>, about \<open>-5.3e-15\<close>.
\<close>

theorem current_load_drift_counterexample:
  "tasks (fst (apply_ops [AddTask 0, AddTask 1, AddTask 2, RemoveTask 0] (Processor 0, tenths)))
     = [1, 2] \<and>
   load_sum tenths
     (fst (apply_ops [AddTask 0, AddTask 1, AddTask 2, RemoveTask 0] (Processor 0, tenths)))
     = 1 / 2 \<and>
   current_load
     (fst (apply_ops [AddTask 0, AddTask 1, AddTask 2, RemoveTask 0] (Processor 0, tenths)))
     = 1 / 2 + 1 / 2 ^ 53 \<and>
   tasks (fst (apply_ops
       [AddTask 0, AddTask 1, AddTask 2, RemoveTask 0, RemoveTask 1, RemoveTask 2]
       (Processor 0, fractional))) = [] \<and>
   current_load (fst (apply_ops
       [AddTask 0, AddTask 1, AddTask 2, RemoveTask 0, RemoveTask 1, RemoveTask 2]
       (Processor 0, fractional))) = - 3 / 2 ^ 49"
proof -
  define p1 where "p1 = add_task tenths 0 (Processor 0)"
  define p2 where "p2 = add_task tenths 1 p1"
  define p3 where "p3 = add_task tenths 2 p2"
  define p4 where "p4 = remove_task tenths 0 p3"
  have c1: "current_load p1 = 3602879701896397 / 2 ^ 55" "tasks p1 = [0]"
    by (simp_all add: p1_def add_task_fields Processor_def tenths_loads round_double_eval)
  have c2: "current_load p2 = 5404319552844596 / 2 ^ 54" "tasks p2 = [0, 1]"
    by (simp_all add: p2_def add_task_fields c1 tenths_loads round_double_eval)
  have c3: "current_load p3 = 5404319552844596 / 2 ^ 53" "tasks p3 = [0, 1, 2]"
    by (simp_all add: p3_def add_task_fields c2 tenths_loads round_double_eval)
  have c4: "current_load p4 = 4503599627370497 / 2 ^ 53" "tasks p4 = [1, 2]"
    by (simp_all add: p4_def remove_task_fields c3 tenths_loads round_double_eval)
  have r: "apply_ops [AddTask 0, AddTask 1, AddTask 2, RemoveTask 0] (Processor 0, tenths)
      = (p4, tenths)"
    by (simp add: p1_def p2_def p3_def p4_def)
  define q1 where "q1 = add_task fractional 0 (Processor 0)"
  define q2 where "q2 = add_task fractional 1 q1"
  define q3 where "q3 = add_task fractional 2 q2"
  define q4 where "q4 = remove_task fractional 0 q3"
  define q5 where "q5 = remove_task fractional 1 q4"
  define q6 where "q6 = remove_task fractional 2 q5"
  have d1: "current_load q1 = 2871044762448691 / 2 ^ 49" "tasks q1 = [0]"
    by (simp_all add: q1_def add_task_fields Processor_def fractional_loads round_double_eval)
  have d2: "current_load q2 = 1745144855606067 / 2 ^ 47" "tasks q2 = [0, 1]"
    by (simp_all add: q2_def add_task_fields d1 fractional_loads round_double_eval)
  have d3: "current_load q3 = 1569222995161907 / 2 ^ 46" "tasks q3 = [0, 1, 2]"
    by (simp_all add: q3_def add_task_fields d2 fractional_loads round_double_eval)
  have d4: "current_load q4 = 2420684799711641 / 2 ^ 47" "tasks q4 = [1, 2]"
    by (simp_all add: q4_def remove_task_fields d3 fractional_loads round_double_eval)
  have d5: "current_load q5 = 2786602269435493 / 2 ^ 48" "tasks q5 = [2]"
    by (simp_all add: q5_def remove_task_fields d4 fractional_loads round_double_eval)
  have d6: "current_load q6 = - 3 / 2 ^ 49" "tasks q6 = []"
    by (simp_all add: q6_def remove_task_fields d5 fractional_loads round_double_eval)
  have s: "apply_ops
      [AddTask 0, AddTask 1, AddTask 2, RemoveTask 0, RemoveTask 1, RemoveTask 2]
      (Processor 0, fractional) = (q6, fractional)"
    by (simp add: q1_def q2_def q3_def q4_def q5_def q6_def)
  have "load_sum tenths p4 = 1 / 2"
    by (simp add: load_sum_def c4 tenths_loads)
  with c4 d6 show ?thesis unfolding r s fst_conv by simp
qed

section \<open>The bounded history\<close>











section \<open>Least-loaded distribution\<close>

text \<open>
  The head of a stable sort by key is the first element of the list whose key is minimal:
  everything before it has a strictly greater key, everything after it a key at least
  as great.
\<close>

lemma hd_insort_key:
  "hd (insort_key f x ys) = (if ys = [] \<or> f x \<le> f (hd ys) then x else hd ys)"
  by (cases ys) simp_all

lemma hd_sort_key_first_min:
  "xs \<noteq> [] \<Longrightarrow>
   \<exists>ys zs. xs = ys @ hd (sort_key f xs) # zs \<and>
     (\<forall>y\<in>set ys. f (hd (sort_key f xs)) < f y) \<and>
     (\<forall>z\<in>set zs. f (hd (sort_key f xs)) \<le> f z)"
proof (induction xs)
  case Nil
  then show ?case by simp
next
  case (Cons x xs)
  show ?case
  proof (cases "xs = []")
    case True
    have "x # xs = [] @ hd (sort_key f (x # xs)) # []" using True by simp
    then show ?thesis by (metis empty_iff list.set(1))
  next
    case False
    let ?m = "hd (sort_key f xs)"
    from False Cons.IH obtain ys zs where
      d: "xs = ys @ ?m # zs" and
      l: "\<forall>y\<in>set ys. f ?m < f y" and
      r: "\<forall>z\<in>set zs. f ?m \<le> f z"
      by blast
    have ne: "sort_key f xs \<noteq> []" using False by (metis length_sort length_0_conv)
    have all: "f ?m \<le> f z" if "z \<in> set xs" for z
    proof -
      from that d have "z \<in> set ys \<or> z = ?m \<or> z \<in> set zs"
        by (metis Un_iff set_ConsD set_append)
      with l r show ?thesis by (metis less_imp_le order_refl)
    qed
    show ?thesis
    proof (cases "f x \<le> f ?m")
      case True
      with ne have h: "hd (sort_key f (x # xs)) = x" by (simp add: hd_insort_key)
      have a: "\<forall>z\<in>set xs. f x \<le> f z" using all True by (metis order_trans)
      have "x # xs = [] @ x # xs" by simp
      with a show ?thesis unfolding h by (metis empty_iff list.set(1))
    next
      case False
      with ne have h: "hd (sort_key f (x # xs)) = ?m" by (simp add: hd_insort_key)
      from False have "f ?m < f x" by simp
      with l have a: "\<forall>y\<in>set (x # ys). f ?m < f y" by simp
      from d have b: "x # xs = (x # ys) @ ?m # zs" by simp
      show ?thesis unfolding h using a b r by blast
    qed
  qed
qed

lemma hd_sorted_positions:
  assumes "ks \<noteq> []"
  shows "hd (sorted_positions ks) < length ks \<and>
         (\<forall>j<length ks. ks ! hd (sorted_positions ks) \<le> ks ! j) \<and>
         (\<forall>j<hd (sorted_positions ks). ks ! hd (sorted_positions ks) < ks ! j)"
proof -
  define n where "n = length ks"
  define m where "m = hd (sorted_positions ks)"
  define f where "f = (\<lambda>i. ks ! i)"
  have m: "m = hd (sort_key f [0..<n])"
    by (simp add: m_def f_def n_def sorted_positions_def)
  from assms have "[0..<n] \<noteq> []" by (simp add: n_def)
  from hd_sort_key_first_min [OF this, of f] obtain ys zs where
    d: "[0..<n] = ys @ m # zs" and
    l: "\<forall>y\<in>set ys. f m < f y" and
    r: "\<forall>z\<in>set zs. f m \<le> f z"
    unfolding m by blast
  have "m \<in> set (ys @ m # zs)" by simp
  then have "m \<in> set [0..<n]" by (simp only: d)
  then have b: "m < n" by simp
  have "length (ys @ m # zs) = n" using d by (metis length_upt diff_zero)
  then have ly: "length ys < n" by simp
  have "(ys @ m # zs) ! length ys = m" by simp
  then have "[0..<n] ! length ys = m" by (simp only: d)
  with ly have len: "length ys = m" by simp
  have s1: "j \<in> set ys" if "j < m" for j
  proof -
    from that b have "j \<in> set [0..<n]" by simp
    then have "j \<in> set ys \<or> j = m \<or> j \<in> set zs" by (auto simp: d)
    moreover have "j \<noteq> m" using that by simp
    moreover have "j \<notin> set zs"
    proof
      assume "j \<in> set zs"
      then obtain k where k: "k < length zs" "zs ! k = j" by (metis in_set_conv_nth)
      have "(ys @ m # zs) ! (length ys + Suc k) = zs ! k"
        by (metis nth_append_length_plus nth_Cons_Suc)
      then have e: "[0..<n] ! (m + Suc k) = j" using k d len by simp
      have "length (ys @ m # zs) = n" using d by (metis length_upt diff_zero)
      with k len have "m + Suc k < n" by simp
      with e have "m + Suc k = j" by simp
      with that show False by simp
    qed
    ultimately show ?thesis by blast
  qed
  have s2: "j \<in> set ys \<or> j = m \<or> j \<in> set zs" if "j < n" for j
  proof -
    from that have "j \<in> set [0..<n]" by simp
    then show ?thesis by (auto simp: d)
  qed
  have le: "\<forall>j<n. f m \<le> f j"
  proof (intro allI impI)
    fix j assume "j < n"
    from s2 [OF this] l r show "f m \<le> f j" by (metis less_imp_le order_refl)
  qed
  have lt: "\<forall>j<m. f m < f j" using l s1 by blast
  from b le lt show ?thesis
    unfolding m_def [symmetric] n_def [symmetric] f_def by simp
qed

lemma assign_first_eq:
  "order \<noteq> [] \<Longrightarrow> assign_first h t order ps = ps[hd order := add_task h t (ps ! hd order)]"
  by (simp add: assign_first_def)

lemma sorted_positions_nonempty: "ks \<noteq> [] \<Longrightarrow> sorted_positions ks \<noteq> []"
proof -
  assume "ks \<noteq> []"
  then have "length (sorted_positions ks) \<noteq> 0" by (simp add: sorted_positions_def)
  then show ?thesis by auto
qed

lemma least_loaded_picks_minimum:
  assumes "ps \<noteq> []"
  shows "\<exists>i<length ps.
           least_loaded h t ps = ps[i := add_task h t (ps ! i)] \<and>
           (\<forall>j<length ps. current_load (ps ! i) \<le> current_load (ps ! j)) \<and>
           (\<forall>j<i. current_load (ps ! i) < current_load (ps ! j))"
proof -
  define ks where "ks = map current_load ps"
  define i where "i = hd (sorted_positions ks)"
  from assms have ne: "ks \<noteq> []" by (simp add: ks_def)
  from hd_sorted_positions [OF ne] have
    b: "i < length ks" and
    m: "\<forall>j<length ks. ks ! i \<le> ks ! j" and
    f: "\<forall>j<i. ks ! i < ks ! j"
    unfolding i_def by blast+
  have len: "length ks = length ps" by (simp add: ks_def)
  have nth: "ks ! j = current_load (ps ! j)" if "j < length ps" for j
    using that by (simp add: ks_def)
  have e: "least_loaded h t ps = ps[i := add_task h t (ps ! i)]"
    using sorted_positions_nonempty [OF ne]
    by (simp add: least_loaded_def assign_first_eq ks_def i_def)
  have a: "\<forall>j<length ps. current_load (ps ! i) \<le> current_load (ps ! j)"
    using m b len nth by metis
  have c: "\<forall>j<i. current_load (ps ! i) < current_load (ps ! j)"
  proof (intro allI impI)
    fix j assume j: "j < i"
    with b len have "j < length ps" by simp
    with f j b len nth show "current_load (ps ! i) < current_load (ps ! j)" by metis
  qed
  from b len e a c show ?thesis by metis
qed

text \<open>
  C6. For every task and every non-empty processor sequence, \<open>_least_loaded\<close> adds the
  task to exactly one processor: one whose \<open>current_load\<close> is minimal, and the first such
  in sequence order. There is no condition on capacity: both branches of the source
  assign to the same processor. With current loads 30, 10, 50 the task goes to index 1,
  the processor at load 10, whatever its load.
\<close>

theorem least_loaded_minimum:
  "(ps \<noteq> [] \<longrightarrow>
      (\<exists>i<length ps.
         least_loaded h t ps = ps[i := add_task h t (ps ! i)] \<and>
         (\<forall>j<length ps. current_load (ps ! i) \<le> current_load (ps ! j)) \<and>
         (\<forall>j<i. current_load (ps ! i) < current_load (ps ! j)))) \<and>
   (map current_load ps = [30, 10, 50] \<longrightarrow>
      least_loaded h t ps = ps[1 := add_task h t (ps ! 1)])"
proof (intro conjI impI)
  assume "ps \<noteq> []"
  then show "\<exists>i<length ps.
         least_loaded h t ps = ps[i := add_task h t (ps ! i)] \<and>
         (\<forall>j<length ps. current_load (ps ! i) \<le> current_load (ps ! j)) \<and>
         (\<forall>j<i. current_load (ps ! i) < current_load (ps ! j))"
    by (rule least_loaded_picks_minimum)
next
  assume a: "map current_load ps = [30, 10, 50]"
  then have "length (map current_load ps) = 3" by simp
  then have len: "length ps = 3" by simp
  then have "ps \<noteq> []" by auto
  from least_loaded_picks_minimum [OF this, of h t] obtain i where
    i: "i < length ps" "least_loaded h t ps = ps[i := add_task h t (ps ! i)]"
       "\<forall>j<length ps. current_load (ps ! i) \<le> current_load (ps ! j)"
    by blast
  have v: "current_load (ps ! 0) = 30" "current_load (ps ! 1) = 10" "current_load (ps ! 2) = 50"
  proof -
    have "map current_load ps ! 0 = 30" "map current_load ps ! 1 = 10"
      "map current_load ps ! 2 = 50" by (simp_all add: a)
    with len show "current_load (ps ! 0) = 30" "current_load (ps ! 1) = 10"
      "current_load (ps ! 2) = 50" by simp_all
  qed
  from i(1) len have "i = 0 \<or> i = 1 \<or> i = 2" by auto
  moreover from i(3) len have "current_load (ps ! i) \<le> current_load (ps ! 1)" by simp
  ultimately have "i = 1" using v by auto
  with i(2) show "least_loaded h t ps = ps[1 := add_task h t (ps ! 1)]" by simp
qed

theorem least_loaded_minimum_witness:
  "loads_30_10_50 \<noteq> [] \<and>
   map tasks (least_loaded two_tasks 0 loads_30_10_50) = [[10], [11, 0], [12]] \<and>
   map current_load (least_loaded two_tasks 0 loads_30_10_50) = [30, 15, 50] \<and>
   map tasks (least_loaded two_tasks 1 loads_30_10_50) = [[10], [11, 1], [12]] \<and>
   map current_load (least_loaded two_tasks 1 loads_30_10_50) = [30, 105, 50]"
  using least_loaded_minimum [of loads_30_10_50 two_tasks 0]
    least_loaded_minimum [of loads_30_10_50 two_tasks 1]
  by (simp add: loads_30_10_50_def two_tasks_def Task_def empty_store_def Processor_def
      add_task_def round_double_numeral)

section \<open>Completion timing\<close>

lemma advance_tasks_other:
  "t \<notin> set ts \<Longrightarrow> fst (advance_tasks s ts h c) t = h t"
  by (induction ts arbitrary: h c) (simp_all add: Let_def)

lemma advance_tasks_hit:
  "distinct ts \<Longrightarrow> t \<in> set ts \<Longrightarrow>
   remaining_time (fst (advance_tasks s ts h c) t) = remaining_time (h t) - s"
proof (induction ts arbitrary: h c)
  case Nil
  then show ?case by simp
next
  case (Cons u ts)
  show ?case
  proof (cases "t = u")
    case True
    with Cons.prems have "t \<notin> set ts" by simp
    with True show ?thesis by (simp add: Let_def advance_tasks_other)
  next
    case False
    with Cons.prems have "distinct ts" "t \<in> set ts" by simp_all
    with False Cons.IH show ?thesis by (simp add: Let_def)
  qed
qed

lemma advance_tasks_completed:
  "distinct ts \<Longrightarrow>
   set (snd (advance_tasks s ts h c)) = set c \<union> {t \<in> set ts. remaining_time (h t) - s \<le> 0}"
proof (induction ts arbitrary: h c)
  case Nil
  then show ?case by simp
next
  case (Cons u ts)
  then have d: "distinct ts" and n: "u \<notin> set ts" by simp_all
  define h' where "h' = h(u := (h u)\<lparr>remaining_time := remaining_time (h u) - s\<rparr>)"
  define c' where "c' = (if remaining_time (h' u) \<le> 0 then c @ [u] else c)"
  have e: "advance_tasks s (u # ts) h c = advance_tasks s ts h' c'"
    by (simp add: h'_def c'_def Let_def)
  have same: "remaining_time (h' t) = remaining_time (h t)" if "t \<in> set ts" for t
    using that n by (auto simp: h'_def)
  have "set (snd (advance_tasks s ts h' c'))
          = set c' \<union> {t \<in> set ts. remaining_time (h' t) - s \<le> 0}"
    using d by (rule Cons.IH)
  also have "{t \<in> set ts. remaining_time (h' t) - s \<le> 0}
          = {t \<in> set ts. remaining_time (h t) - s \<le> 0}"
    using same by auto
  also have "set c' = set c \<union> {t \<in> {u}. remaining_time (h t) - s \<le> 0}"
    by (auto simp: c'_def h'_def)
  finally show ?case unfolding e by auto
qed

lemma remove_task_distinct:
  "distinct (tasks p) \<Longrightarrow>
   distinct (tasks (remove_task h t p)) \<and>
   set (tasks (remove_task h t p)) = set (tasks p) - {t} \<and>
   processing_speed (remove_task h t p) = processing_speed p"
  by (auto simp: remove_task_def)

lemma remove_completed_distinct:
  "distinct (tasks p) \<Longrightarrow>
   distinct (tasks (remove_completed h cs p)) \<and>
   set (tasks (remove_completed h cs p)) = set (tasks p) - set cs \<and>
   processing_speed (remove_completed h cs p) = processing_speed p"
proof (induction cs arbitrary: p)
  case Nil
  then show ?case by simp
next
  case (Cons c cs)
  from remove_task_distinct [OF Cons.prems, of h c] have
    a: "distinct (tasks (remove_task h c p))" and
    b: "set (tasks (remove_task h c p)) = set (tasks p) - {c}" and
    s: "processing_speed (remove_task h c p) = processing_speed p"
    by blast+
  from Cons.IH [OF a] b s show ?case by auto
qed

lemma update_history_keeps:
  "tasks (update_history p) = tasks p" "processing_speed (update_history p) = processing_speed p"
  by (simp_all add: update_history_def Let_def)

lemma process_tasks_one_tick:
  assumes "distinct (tasks p)" and "t \<in> set (tasks p)" and "process_tasks p h = (c, p', h')"
  shows "remaining_time (h' t) = remaining_time (h t) - processing_speed p"
    and "(t \<in> set c) = (remaining_time (h t) - processing_speed p \<le> 0)"
    and "(t \<in> set (tasks p')) = (\<not> remaining_time (h t) - processing_speed p \<le> 0)"
    and "distinct (tasks p')"
    and "processing_speed p' = processing_speed p"
proof -
  define s where "s = processing_speed p"
  obtain h1 c1 where a: "advance_tasks s (tasks p) h [] = (h1, c1)"
    by (cases "advance_tasks s (tasks p) h []")
  with assms(3) have eq: "c = c1" "h' = h1" "p' = update_history (remove_completed h1 c1 p)"
    by (auto simp: process_tasks_def s_def)
  have "remaining_time (fst (advance_tasks s (tasks p) h []) t) = remaining_time (h t) - s"
    using assms(1,2) by (rule advance_tasks_hit)
  with a eq show "remaining_time (h' t) = remaining_time (h t) - processing_speed p"
    by (simp add: s_def)
  have "set (snd (advance_tasks s (tasks p) h []))
          = set [] \<union> {t \<in> set (tasks p). remaining_time (h t) - s \<le> 0}"
    using assms(1) by (rule advance_tasks_completed)
  with a have cs: "set c1 = {t \<in> set (tasks p). remaining_time (h t) - s \<le> 0}" by simp
  with assms(2) eq show m: "(t \<in> set c) = (remaining_time (h t) - processing_speed p \<le> 0)"
    by (simp add: s_def)
  from remove_completed_distinct [OF assms(1), of h1 c1] have
    r: "distinct (tasks (remove_completed h1 c1 p))"
       "set (tasks (remove_completed h1 c1 p)) = set (tasks p) - set c1"
       "processing_speed (remove_completed h1 c1 p) = processing_speed p"
    by blast+
  from r(2) eq assms(2) m
  show "(t \<in> set (tasks p')) = (\<not> remaining_time (h t) - processing_speed p \<le> 0)"
    by (simp add: update_history_keeps)
  from r(1) eq show "distinct (tasks p')" by (simp add: update_history_keeps)
  from r(3) eq show "processing_speed p' = processing_speed p"
    by (simp add: update_history_keeps)
qed

lemma completes_after:
  assumes "distinct (tasks p)" and "t \<in> set (tasks p)"
    and "0 \<le> processing_speed p"
    and "0 < remaining_time (h t) - real n * processing_speed p"
    and "remaining_time (h t) - real (Suc n) * processing_speed p \<le> 0"
    and "run_ticks (Suc n) p h = (cs, p', h')"
  shows "length cs = Suc n \<and> (\<forall>k<n. t \<notin> set (cs ! k)) \<and> t \<in> set (cs ! n) \<and>
         t \<notin> set (tasks p')"
  using assms
proof (induction n arbitrary: p h cs p' h')
  case 0
  obtain c p1 h1 where pt: "process_tasks p h = (c, p1, h1)" by (cases "process_tasks p h")
  with "0.prems"(6) have e: "cs = [c]" "p' = p1" by auto
  from "0.prems"(5) have le: "remaining_time (h t) - processing_speed p \<le> 0" by simp
  from process_tasks_one_tick(2,3) [OF "0.prems"(1,2) pt] le
  have "t \<in> set c" "t \<notin> set (tasks p1)" by simp_all
  with e show ?case by simp
next
  case (Suc n)
  define s where "s = processing_speed p"
  define r where "r = remaining_time (h t)"
  obtain c p1 h1 where pt: "process_tasks p h = (c, p1, h1)" by (cases "process_tasks p h")
  obtain cs1 p2 h2 where rt: "run_ticks (Suc n) p1 h1 = (cs1, p2, h2)"
    by (cases "run_ticks (Suc n) p1 h1")
  from Suc.prems(6) pt rt have e: "cs = c # cs1" "p' = p2"
    by (auto simp del: run_ticks.simps simp add: run_ticks.simps(2) [of "Suc n"])
  from Suc.prems(3,4,5) have s0: "0 \<le> s" and gt: "0 < r - real (Suc n) * s"
    and le: "r - real (Suc (Suc n)) * s \<le> 0" by (simp_all add: s_def r_def)
  have "real n * s \<ge> 0" using s0 by simp
  with gt have one: "0 < r - s" by (simp add: algebra_simps)
  note t1 = process_tasks_one_tick [OF Suc.prems(1,2) pt]
  from t1(2) one have nc: "t \<notin> set c" by (simp add: s_def r_def)
  from t1(3) one have own: "t \<in> set (tasks p1)" by (simp add: s_def r_def)
  have r1: "remaining_time (h1 t) = r - s" using t1(1) by (simp add: s_def r_def)
  have s1: "processing_speed p1 = s" using t1(5) by (simp add: s_def)
  have g1: "0 < remaining_time (h1 t) - real n * processing_speed p1"
    using gt by (simp add: r1 s1 algebra_simps)
  have l1: "remaining_time (h1 t) - real (Suc n) * processing_speed p1 \<le> 0"
    using le by (simp add: r1 s1 algebra_simps)
  have "0 \<le> processing_speed p1" using s0 s1 by simp
  from Suc.IH [OF t1(4) own this g1 l1 rt] have
    ih: "length cs1 = Suc n" "\<forall>k<n. t \<notin> set (cs1 ! k)" "t \<in> set (cs1 ! n)"
        "t \<notin> set (tasks p2)"
    by blast+
  have "\<forall>k<Suc n. t \<notin> set ((c # cs1) ! k)"
  proof (intro allI impI)
    fix k assume "k < Suc n"
    then show "t \<notin> set ((c # cs1) ! k)" using nc ih(2) by (cases k) simp_all
  qed
  with ih e show ?case by simp
qed

text \<open>
  C8. One call of \<open>process_tasks\<close> decrements the remaining time of an owned task by the
  processor's speed. A task of execution time 5, not yet started, that a processor of
  speed 1.0 owns (once: the same object is not in its list twice) is in the completed
  list of the fifth call, in none of the first four, and is no longer owned after the
  fifth.
\<close>

theorem completes_on_fifth_tick:
  assumes "distinct (tasks p)" and "t \<in> set (tasks p)" and "processing_speed p = 1"
    and "execution_time (h t) = 5" and "remaining_time (h t) = execution_time (h t)"
  shows "(case process_tasks p h of
            (c, p', h') \<Rightarrow> remaining_time (h' t) = remaining_time (h t) - processing_speed p) \<and>
         (case run_ticks 5 p h of
            (cs, p', h') \<Rightarrow>
              length cs = 5 \<and> (\<forall>k<4. t \<notin> set (cs ! k)) \<and> t \<in> set (cs ! 4) \<and>
              t \<notin> set (tasks p'))"
proof
  obtain c p1 h1 where pt: "process_tasks p h = (c, p1, h1)" by (cases "process_tasks p h")
  from process_tasks_one_tick(1) [OF assms(1,2) pt] pt
  show "case process_tasks p h of
          (c, p', h') \<Rightarrow> remaining_time (h' t) = remaining_time (h t) - processing_speed p"
    by simp
next
  obtain cs p' h' where rt: "run_ticks (Suc 4) p h = (cs, p', h')"
    by (cases "run_ticks (Suc 4) p h")
  have "0 \<le> processing_speed p" using assms(3) by simp
  moreover have "0 < remaining_time (h t) - real (4::nat) * processing_speed p"
    using assms(3,4,5) by simp
  moreover have "remaining_time (h t) - real (Suc 4) * processing_speed p \<le> 0"
    using assms(3,4,5) by simp
  ultimately have "length cs = Suc 4 \<and> (\<forall>k<4. t \<notin> set (cs ! k)) \<and> t \<in> set (cs ! 4) \<and>
      t \<notin> set (tasks p')"
    using completes_after [OF assms(1,2) _ _ _ rt] by blast
  moreover have "run_ticks 5 p h = run_ticks (Suc 4) p h" by (simp only: eval_nat_numeral)
  ultimately show "case run_ticks 5 p h of
            (cs, p', h') \<Rightarrow>
              length cs = 5 \<and> (\<forall>k<4. t \<notin> set (cs ! k)) \<and> t \<in> set (cs ! 4) \<and>
              t \<notin> set (tasks p')"
    using rt by simp
qed

theorem completes_on_fifth_tick_witness:
  "distinct (tasks one_task_processor) \<and> 0 \<in> set (tasks one_task_processor) \<and>
   processing_speed one_task_processor = 1 \<and>
   execution_time (cells one_task_store 0) = 5 \<and>
   remaining_time (cells one_task_store 0) = execution_time (cells one_task_store 0) \<and>
   fst (run_ticks 5 one_task_processor (cells one_task_store)) = [[], [], [], [], [0]] \<and>
   tasks (fst (snd (run_ticks 5 one_task_processor (cells one_task_store)))) = []"
proof -
  have a: "distinct (tasks one_task_processor)"
    and b: "0 \<in> set (tasks one_task_processor)"
    and c: "processing_speed one_task_processor = 1"
    and d: "execution_time (cells one_task_store 0) = 5"
    and e: "remaining_time (cells one_task_store 0) = execution_time (cells one_task_store 0)"
    by (simp_all add: one_task_processor_def one_task_store_def Task_def empty_store_def
        Processor_def add_task_def)
  note w = completes_on_fifth_tick
    [of one_task_processor 0 "cells one_task_store", OF a b c d e]
  have "fst (run_ticks 5 one_task_processor (cells one_task_store)) = [[], [], [], [], [0]]"
    "tasks (fst (snd (run_ticks 5 one_task_processor (cells one_task_store)))) = []"
    by (simp_all add: eval_nat_numeral one_task_processor_def one_task_store_def Task_def
        empty_store_def Processor_def add_task_def process_tasks_def remove_task_def
        update_history_def)
  with w a b c d e show ?thesis by simp
qed

section \<open>Distribution with and without processors\<close>

lemma scan_capacity_adds:
  "scan_capacity h t ps = Some ps' \<Longrightarrow> \<exists>i<length ps. ps' = ps[i := add_task h t (ps ! i)]"
proof (induction ps arbitrary: ps')
  case Nil
  then show ?case by simp
next
  case (Cons p ps)
  show ?case
  proof (cases "get_available_capacity p \<ge> load (h t)")
    case True
    with Cons.prems have "ps' = (p # ps)[0 := add_task h t ((p # ps) ! 0)]" by simp
    then show ?thesis by blast
  next
    case False
    with Cons.prems obtain qs where q: "scan_capacity h t ps = Some qs" "ps' = p # qs"
      by auto
    from Cons.IH [OF q(1)] obtain i where "i < length ps" "qs = ps[i := add_task h t (ps ! i)]"
      by blast
    with q(2) have "Suc i < length (p # ps)"
      "ps' = (p # ps)[Suc i := add_task h t ((p # ps) ! Suc i)]" by simp_all
    then show ?thesis by blast
  qed
qed

lemma round_robin_adds:
  assumes "ps \<noteq> []"
  shows "\<exists>i<length ps. round_robin h t ps = ps[i := add_task h t (ps ! i)]"
proof (cases "scan_capacity h t ps")
  case None
  with assms have "round_robin h t ps = ps[0 := add_task h t (ps ! 0)]"
    by (simp add: round_robin_def)
  moreover from assms have "0 < length ps" by simp
  ultimately show ?thesis by blast
next
  case (Some ps')
  from scan_capacity_adds [OF Some] Some show ?thesis by (simp add: round_robin_def)
qed

lemma keys_of_length: "keys_of f xs = Inr ks \<Longrightarrow> length ks = length xs"
proof (induction xs arbitrary: ks)
  case Nil
  then show ?case by simp
next
  case (Cons x xs)
  then show ?case by (auto split: sum.splits)
qed

lemma keyed_adds:
  assumes "ps \<noteq> []" and "keys_of f ps = Inr ks"
  shows "\<exists>i<length ps.
           assign_first h t (sorted_positions ks) ps = ps[i := add_task h t (ps ! i)]"
proof -
  from keys_of_length [OF assms(2)] have len: "length ks = length ps" .
  with assms(1) have ne: "ks \<noteq> []" by auto
  from hd_sorted_positions [OF ne] len have "hd (sorted_positions ks) < length ps" by simp
  moreover have "assign_first h t (sorted_positions ks) ps
      = ps[hd (sorted_positions ks) := add_task h t (ps ! hd (sorted_positions ks))]"
    using sorted_positions_nonempty [OF ne] by (rule assign_first_eq)
  ultimately show ?thesis by blast
qed

lemma keys_of_defined:
  assumes "\<forall>x\<in>set xs. f x \<noteq> Inl ZeroDivisionError"
  shows "\<exists>ks. keys_of f xs = Inr ks"
proof (cases "keys_of f xs")
  case (Inl e)
  then have "keys_of f xs = Inl ZeroDivisionError" by (cases e) simp
  with keys_of_error [of f xs] assms show ?thesis by simp
next
  case (Inr ks)
  then show ?thesis by blast
qed

lemma dispatch_adds:
  assumes "ps \<noteq> []" and "selection_defined a ps"
  shows "\<exists>i<length ps. dispatch a h t ps = Inr (ps[i := add_task h t (ps ! i)])"
proof -
  from assms(2) consider
    (rr) "a = ''round_robin''" | (ll) "a = ''least_loaded''"
    | (w) "a = ''weighted''" "\<forall>p\<in>set ps. processing_speed p \<noteq> 0"
    | (ad) "a = ''adaptive''" "\<forall>p\<in>set ps. processing_speed p \<noteq> 0 \<and> capacity p \<noteq> 0"
    unfolding selection_defined_def by blast
  then show ?thesis
  proof cases
    case rr
    from round_robin_adds [OF assms(1), of h t] obtain i where
      i: "i < length ps" "round_robin h t ps = ps[i := add_task h t (ps ! i)]" by blast
    from rr i(2) have "dispatch a h t ps = Inr (ps[i := add_task h t (ps ! i)])"
      by (simp add: dispatch_def)
    with i(1) show ?thesis by blast
  next
    case ll
    from least_loaded_picks_minimum [OF assms(1), of h t] obtain i where
      i: "i < length ps" "least_loaded h t ps = ps[i := add_task h t (ps ! i)]" by blast
    from ll i(2) have "dispatch a h t ps = Inr (ps[i := add_task h t (ps ! i)])"
      by (simp add: dispatch_def)
    with i(1) show ?thesis by blast
  next
    case w
    then have "\<forall>p\<in>set ps. weighted_key p \<noteq> Inl ZeroDivisionError"
      by (simp add: weighted_key_error)
    from keys_of_defined [OF this] obtain ks where k: "keys_of weighted_key ps = Inr ks" ..
    from keyed_adds [OF assms(1) k, of h t] obtain i where
      i: "i < length ps"
         "assign_first h t (sorted_positions ks) ps = ps[i := add_task h t (ps ! i)]" by blast
    from w(1) k i(2) have "dispatch a h t ps = Inr (ps[i := add_task h t (ps ! i)])"
      by (simp add: dispatch_def weighted_distribution_def)
    with i(1) show ?thesis by blast
  next
    case ad
    then have "\<forall>p\<in>set ps. adaptive_score p \<noteq> Inl ZeroDivisionError"
      by (simp add: adaptive_score_error)
    from keys_of_defined [OF this] obtain ks where k: "keys_of adaptive_score ps = Inr ks" ..
    from keyed_adds [OF assms(1) k, of h t] obtain i where
      i: "i < length ps"
         "assign_first h t (sorted_positions ks) ps = ps[i := add_task h t (ps ! i)]" by blast
    from ad(1) k i(2) have "dispatch a h t ps = Inr (ps[i := add_task h t (ps ! i)])"
      by (simp add: dispatch_def adaptive_distribution_def)
    with i(1) show ?thesis by blast
  qed
qed

lemma add_task_keeps:
  "processing_speed (add_task h t p) = processing_speed p"
  "capacity (add_task h t p) = capacity p"
  "set (tasks (add_task h t p)) = insert t (set (tasks p))"
  by (simp_all add: add_task_def)

lemma selection_defined_update:
  assumes "selection_defined a ps" and "i < length ps"
  shows "selection_defined a (ps[i := add_task h t (ps ! i)])"
proof -
  have "processing_speed q = processing_speed (ps ! i) \<and> capacity q = capacity (ps ! i) \<or> q \<in> set ps"
    if "q \<in> set (ps[i := add_task h t (ps ! i)])" for q
  proof -
    from that have "q \<in> insert (add_task h t (ps ! i)) (set ps)"
      using set_update_subset_insert by fastforce
    then show ?thesis by (auto simp: add_task_keeps)
  qed
  moreover have "ps ! i \<in> set ps" using assms(2) by simp
  ultimately show ?thesis using assms(1) unfolding selection_defined_def by metis
qed

lemma grown_refl: "grown ps ps"
  by (simp add: grown_def)

lemma grown_trans: "grown ps qs \<Longrightarrow> grown qs rs \<Longrightarrow> grown ps rs"
  unfolding grown_def by (metis subset_trans)

lemma grown_update:
  "i < length ps \<Longrightarrow> grown ps (ps[i := add_task h t (ps ! i)])"
  unfolding grown_def by (auto simp: nth_list_update add_task_keeps)

lemma dispatch_no_processors: "dispatch a h t [] = Inr []"
  by (simp add: dispatch_def round_robin_def least_loaded_def weighted_distribution_def
      adaptive_distribution_def assign_first_def sorted_positions_def)

lemma drain_queue_no_processors: "drain_queue a h q [] = Inr []"
  by (induction q) (simp_all add: dispatch_no_processors)

lemma drain_queue_assigns:
  assumes "ps \<noteq> []" and "selection_defined a ps"
  shows "\<exists>ps'. drain_queue a h q ps = Inr ps' \<and> grown ps ps' \<and>
           (\<forall>t\<in>set q. \<exists>j<length ps'. t \<in> set (tasks (ps' ! j)))"
  using assms
proof (induction q arbitrary: ps)
  case Nil
  then show ?case by (simp add: grown_refl)
next
  case (Cons t q)
  from dispatch_adds [OF Cons.prems, of h t] obtain i where
    i: "i < length ps" "dispatch a h t ps = Inr (ps[i := add_task h t (ps ! i)])" by blast
  define ps1 where "ps1 = ps[i := add_task h t (ps ! i)]"
  have ne: "ps1 \<noteq> []" using Cons.prems(1) by (simp add: ps1_def)
  have sd: "selection_defined a ps1"
    unfolding ps1_def using Cons.prems(2) i(1) by (rule selection_defined_update)
  from Cons.IH [OF ne sd] obtain ps' where
    d: "drain_queue a h q ps1 = Inr ps'" and g: "grown ps1 ps'"
    and a: "\<forall>t\<in>set q. \<exists>j<length ps'. t \<in> set (tasks (ps' ! j))" by blast
  have g1: "grown ps ps1" unfolding ps1_def using i(1) by (rule grown_update)
  have "drain_queue a h (t # q) ps = Inr ps'" using i(2) d by (simp add: ps1_def)
  moreover have "grown ps ps'" using g1 g by (rule grown_trans)
  moreover have "\<exists>j<length ps'. t \<in> set (tasks (ps' ! j))"
  proof -
    have "t \<in> set (tasks (ps1 ! i))" using i(1) by (simp add: ps1_def add_task_keeps)
    moreover have "i < length ps1" using i(1) by (simp add: ps1_def)
    ultimately have "t \<in> set (tasks (ps' ! i))" "i < length ps'"
      using g unfolding grown_def by auto
    then show ?thesis by blast
  qed
  ultimately show ?case using a by auto
qed

text \<open>
  C9, amended. With an empty processor list \<open>distribute_tasks\<close> raises nothing and only
  empties the queue, whatever the algorithm name: the dequeued tasks are held by no
  processor and are not queued again. With at least one processor, and an algorithm name
  that has a branch whose sort key is defined on every processor
  (\<open>selection_defined\<close>), it raises nothing, empties the queue, keeps every processor
  and the tasks it held, and every task that was in the queue is afterwards held by
  some processor.
\<close>

theorem distribution_drops_or_assigns:
  "(processors lb = [] \<longrightarrow> distribute_tasks h lb = Inr (lb\<lparr>task_queue := []\<rparr>)) \<and>
   (processors lb \<noteq> [] \<and> selection_defined (algorithm lb) (processors lb) \<longrightarrow>
      (\<exists>lb'. distribute_tasks h lb = Inr lb' \<and> task_queue lb' = [] \<and>
         grown (processors lb) (processors lb') \<and>
         (\<forall>t\<in>set (task_queue lb). \<exists>j<length (processors lb'). t \<in> set (tasks (processors lb' ! j)))))"
proof (intro conjI impI)
  assume "processors lb = []"
  then show "distribute_tasks h lb = Inr (lb\<lparr>task_queue := []\<rparr>)"
    by (simp add: distribute_tasks_def drain_queue_no_processors)
next
  assume "processors lb \<noteq> [] \<and> selection_defined (algorithm lb) (processors lb)"
  then have "processors lb \<noteq> []" "selection_defined (algorithm lb) (processors lb)" by simp_all
  from drain_queue_assigns [OF this, of h "task_queue lb"] obtain ps' where
    d: "drain_queue (algorithm lb) h (task_queue lb) (processors lb) = Inr ps'"
    and g: "grown (processors lb) ps'"
    and a: "\<forall>t\<in>set (task_queue lb). \<exists>j<length ps'. t \<in> set (tasks (ps' ! j))" by blast
  from d have "distribute_tasks h lb = Inr (lb\<lparr>processors := ps', task_queue := []\<rparr>)"
    by (simp add: distribute_tasks_def)
  with g a show "\<exists>lb'. distribute_tasks h lb = Inr lb' \<and> task_queue lb' = [] \<and>
         grown (processors lb) (processors lb') \<and>
         (\<forall>t\<in>set (task_queue lb). \<exists>j<length (processors lb'). t \<in> set (tasks (processors lb' ! j)))"
    by simp
qed

text \<open>
  The theorem at two balancers with tasks 0 and 1 queued: one with no processor, one
  with two processors under \<open>weighted\<close>.
\<close>

theorem distribution_drops_or_assigns_witness:
  "distribute_tasks (cells empty_store) ((LoadBalancer 0)\<lparr>task_queue := [0, 1]\<rparr>)
     = Inr (LoadBalancer 0) \<and>
   (\<exists>lb'. distribute_tasks (cells empty_store)
             ((LoadBalancer 2)\<lparr>algorithm := ''weighted'', task_queue := [0, 1]\<rparr>) = Inr lb' \<and>
          task_queue lb' = [] \<and> length (processors lb') = 2 \<and>
          (\<forall>t\<in>{0, 1}. \<exists>j<length (processors lb'). t \<in> set (tasks (processors lb' ! j))))"
  using distribution_drops_or_assigns
          [of "(LoadBalancer 0)\<lparr>task_queue := [0, 1]\<rparr>" "cells empty_store"]
        distribution_drops_or_assigns
          [of "(LoadBalancer 2)\<lparr>algorithm := ''weighted'', task_queue := [0, 1]\<rparr>"
              "cells empty_store"]
  by (auto simp: LoadBalancer_def selection_defined_def Processor_def grown_def
      eval_nat_numeral upt_rec)

text \<open>
  C9 as stated fails once the condition on the algorithm is dropped: with two processors
  and the name \<open>fastest\<close>, task 0 leaves the queue and no processor holds it; with one
  processor of speed 0 under \<open>weighted\<close>, the task leaves the queue and
  \<open>ZeroDivisionError\<close> is raised before any assignment.
\<close>

theorem distribution_counterexample:
  "processors ((LoadBalancer 2)\<lparr>algorithm := ''fastest'', task_queue := [0]\<rparr>) \<noteq> [] \<and>
   assignment
     (distribute_tasks (cells empty_store)
        ((LoadBalancer 2)\<lparr>algorithm := ''fastest'', task_queue := [0]\<rparr>), empty_store)
     = Inr [[], []] \<and>
   distribute_tasks (cells empty_store)
     \<lparr>processors = [(Processor 0)\<lparr>processing_speed := 0\<rparr>], task_queue = [0],
      completed_tasks = 0, task_id_counter = 1, algorithm = ''weighted'',
      running = False, paused = False\<rparr>
     = Inl ZeroDivisionError"
  by (simp add: distribute_tasks_def dispatch_def LoadBalancer_def assignment_def
      Processor_def weighted_distribution_def weighted_key_def py_div_def
      eval_nat_numeral upt_rec)

end
